theory Spec2Isabelle
  imports Complex_Main "HOL-Library.Product_Lexorder" "HOL-Library.AList" "HOL-Library.Multiset"
begin

section \<open>Two-hand note partitioning (separate.py)\<close>

text \<open>
  The engines of \<^verbatim>\<open>separate.py\<close> work on tuples \<^verbatim>\<open>(pitch, start, end, velocity)\<close>:
  index 0 is the pitch, 1 the onset, 2 the offset, 3 the velocity. Onsets and offsets are
  seconds; they are only ever compared, so they are modelled as rationals. The cost terms
  are sums of small decimal constants; they are modelled in exact rational arithmetic.
\<close>

subsection \<open>Data\<close>

record Note =
  note_pitch :: int
  note_start :: rat
  note_end :: rat
  note_velocity :: int

datatype hand = Left | Right

text \<open>A PrettyMIDI object, as far as the engines read it: its instruments, each a list of notes.\<close>

type_synonym midi_data = "Note list list"

record hand_state =
  fingers_used :: nat
  spread :: int
  min_pitch :: int
  max_pitch :: int

subsection \<open>Note extraction and sorting\<close>

definition extract_notes :: "midi_data \<Rightarrow> Note list" where
  "extract_notes midi = concat midi"

text \<open>\<^verbatim>\<open>notes.sort(key=lambda x: (x[1], x[0]))\<close>: a stable sort on (start, pitch).\<close>

definition sort_notes :: "Note list \<Rightarrow> Note list" where
  "sort_notes notes = sort_key (\<lambda>x. (note_start x, note_pitch x)) notes"

subsection \<open>Hand state\<close>

text \<open>
  The dictionary built for each hand from its \<^verbatim>\<open>current_pitches\<close>; \<^verbatim>\<open>min\<close> and
  \<^verbatim>\<open>max\<close> are only taken of a non-empty list.
\<close>

definition make_state :: "int \<Rightarrow> int list \<Rightarrow> hand_state" where
  "make_state pitch current_pitches =
     (let finger_positions = (\<lambda>p. p mod 12) ` set current_pitches;
          mn = (if current_pitches \<noteq> [] then Min (set current_pitches) else pitch);
          mx = (if current_pitches \<noteq> [] then Max (set current_pitches) else pitch)
      in \<lparr> fingers_used = card finger_positions,
           spread = (if current_pitches \<noteq> [] then mx - mn else 0),
           min_pitch = mn,
           max_pitch = mx \<rparr>)"

definition register_cost :: "hand \<Rightarrow> int \<Rightarrow> rat" where
  "register_cost h pitch =
     (if (h = Left \<and> pitch \<ge> 60) \<or> (h = Right \<and> pitch < 60) then 4 / 5 else 0)"

subsection \<open>The greedy engine: \<^verbatim>\<open>assign_notes_to_hands\<close>\<close>

record greedy_state =
  left_hand :: "Note list"
  right_hand :: "Note list"
  active_notes :: "hand \<Rightarrow> Note list"

definition greedy_init :: greedy_state where
  "greedy_init = \<lparr> left_hand = [], right_hand = [], active_notes = (\<lambda>h. []) \<rparr>"

text \<open>
  The pruning of line 41, \<^verbatim>\<open>[n for n in active_notes[hand] if n[3] > start]\<close>:
  the field compared with the onset is index 3 of the tuple, the velocity.
\<close>

definition prune :: "rat \<Rightarrow> Note list \<Rightarrow> Note list" where
  "prune start ns = filter (\<lambda>n. of_int (note_velocity n) > start) ns"

text \<open>
  The body of the second loop (lines 58 to 74) for one hand. The name \<^verbatim>\<open>current_pitches\<close>
  is not rebound in that loop: it still holds the value the first loop gave it last, and is
  passed here as it is.
\<close>

definition greedy_cost :: "int \<Rightarrow> int \<Rightarrow> int \<Rightarrow> hand \<Rightarrow> hand_state \<Rightarrow> int list \<Rightarrow> rat" where
  "greedy_cost max_fingers allowed_spread pitch h state current_pitches =
     (let new_min = (if current_pitches \<noteq> [] then min (min_pitch state) pitch else pitch);
          new_max = (if current_pitches \<noteq> [] then max (max_pitch state) pitch else pitch);
          new_span = new_max - new_min;
          span_cost = of_int ((max 0 (new_span - allowed_spread))\<^sup>2);
          finger_cost = (if int (fingers_used state) \<ge> max_fingers
                            \<and> pitch mod 12 \<notin> (\<lambda>p. p mod 12) ` set current_pitches
                         then 2 else 0);
          density_cost = (1 / 5) * of_nat (length current_pitches)
      in span_cost + finger_cost + register_cost h pitch + density_cost)"

text \<open>
  The first loop (lines 40 to 54) over \<^verbatim>\<open>['left', 'right']\<close>: both active lists are
  pruned and stored back, and a state is built for each hand. It returns the pruned lists,
  the two states and the value of \<^verbatim>\<open>current_pitches\<close> when the loop ends, which is the
  one computed for \<^verbatim>\<open>'right'\<close>.
\<close>

definition greedy_states ::
  "Note \<Rightarrow> greedy_state \<Rightarrow> (hand \<Rightarrow> Note list) \<times> (hand \<Rightarrow> hand_state) \<times> int list" where
  "greedy_states n s =
     (let act = (\<lambda>h. prune (note_start n) (active_notes s h));
          hand_states = (\<lambda>h. make_state (note_pitch n) (map note_pitch (act h)));
          current_pitches = map note_pitch (act Right)
      in (act, hand_states, current_pitches))"

definition greedy_costs :: "int \<Rightarrow> int \<Rightarrow> Note \<Rightarrow> greedy_state \<Rightarrow> hand \<Rightarrow> rat" where
  "greedy_costs max_fingers allowed_spread n s =
     (case greedy_states n s of (act, hand_states, current_pitches) \<Rightarrow>
        (\<lambda>h. greedy_cost max_fingers allowed_spread (note_pitch n) h (hand_states h) current_pitches))"

definition append_left :: "Note \<Rightarrow> (hand \<Rightarrow> Note list) \<Rightarrow> greedy_state \<Rightarrow> greedy_state" where
  "append_left n act s =
     \<lparr> left_hand = left_hand s @ [n], right_hand = right_hand s,
       active_notes = act(Left := act Left @ [n]) \<rparr>"

definition append_right :: "Note \<Rightarrow> (hand \<Rightarrow> Note list) \<Rightarrow> greedy_state \<Rightarrow> greedy_state" where
  "append_right n act s =
     \<lparr> left_hand = left_hand s, right_hand = right_hand s @ [n],
       active_notes = act(Right := act Right @ [n]) \<rparr>"

text \<open>One iteration of the main loop (lines 35 to 90).\<close>

definition greedy_step :: "int \<Rightarrow> int \<Rightarrow> Note \<Rightarrow> greedy_state \<Rightarrow> greedy_state" where
  "greedy_step max_fingers allowed_spread n s =
     (let act = fst (greedy_states n s);
          costs = greedy_costs max_fingers allowed_spread n s
      in if costs Left < costs Right * (9 / 10) then append_left n act s
         else if costs Right < costs Left * (9 / 10) then append_right n act s
         else if length (left_hand s) > length (right_hand s) then append_right n act s
         else append_left n act s)"

definition greedy_run :: "int \<Rightarrow> int \<Rightarrow> Note list \<Rightarrow> greedy_state \<Rightarrow> greedy_state" where
  "greedy_run max_fingers allowed_spread notes s = fold (greedy_step max_fingers allowed_spread) notes s"

definition assign_notes_to_hands :: "midi_data \<Rightarrow> int \<Rightarrow> int \<Rightarrow> Note list \<times> Note list" where
  "assign_notes_to_hands midi max_fingers allowed_spread =
     (let notes = sort_notes (extract_notes midi);
          s = greedy_run max_fingers allowed_spread notes greedy_init
      in (left_hand s, right_hand s))"

subsection \<open>The cost function of the DP engine: \<^verbatim>\<open>calculate_cost\<close>\<close>

text \<open>
  \<^verbatim>\<open>current_assignments\<close> is the dictionary \<^verbatim>\<open>hand_assignment\<close> of the caller, keyed by
  (note index, hand). Python dictionaries iterate in insertion order and an update keeps the
  key's place, which is what an association list with \<^const>\<open>AList.update\<close> does.
\<close>

type_synonym assignments = "((nat \<times> hand) \<times> hand) list"

text \<open>The loop of lines 188 to 196, collecting \<^verbatim>\<open>active_notes_pitch\<close>.\<close>

fun active_notes_pitch :: "hand \<Rightarrow> rat \<Rightarrow> Note list \<Rightarrow> assignments \<Rightarrow> int list" where
  "active_notes_pitch h start previous_notes [] = []"
| "active_notes_pitch h start previous_notes (((n_idx, hand_assigned), prev) # items) =
     (if n_idx \<ge> length previous_notes then active_notes_pitch h start previous_notes items
      else if hand_assigned = h then
        (let assigned_note = previous_notes ! n_idx
         in if note_end assigned_note > start
            then note_pitch assigned_note # active_notes_pitch h start previous_notes items
            else active_notes_pitch h start previous_notes items)
      else active_notes_pitch h start previous_notes items)"

definition calculate_cost ::
  "Note \<Rightarrow> hand \<Rightarrow> assignments \<Rightarrow> Note list \<Rightarrow> int \<Rightarrow> int \<Rightarrow> rat" where
  "calculate_cost n h current_assignments previous_notes max_fingers allowed_spread =
     (let pitch = note_pitch n;
          current_pitches = active_notes_pitch h (note_start n) previous_notes current_assignments;
          finger_positions = (\<lambda>p. p mod 12) ` set current_pitches;
          state = make_state pitch current_pitches;
          new_min = (if current_pitches \<noteq> [] then min (min_pitch state) pitch else pitch);
          new_max = (if current_pitches \<noteq> [] then max (max_pitch state) pitch else pitch);
          new_span = new_max - new_min;
          span_cost = of_int ((max 0 (new_span - allowed_spread))\<^sup>2);
          finger_cost = (if int (fingers_used state) \<ge> max_fingers
                            \<and> pitch mod 12 \<notin> (\<lambda>p. p mod 12) ` finger_positions
                         then 2 else 0);
          density_cost = (1 / 5) * of_nat (length current_pitches)
      in span_cost + finger_cost + register_cost h pitch + density_cost)"

subsection \<open>The DP engine: \<^verbatim>\<open>dynamic_programming_assign_hands\<close>\<close>

text \<open>
  A table entry is a float that starts as \<^verbatim>\<open>float('inf')\<close>; \<open>Infty\<close> is that value, with
  the comparisons and the addition the engine uses.
\<close>

datatype ecost = Fin rat | Infty

fun ecost_add :: "ecost \<Rightarrow> rat \<Rightarrow> ecost" where
  "ecost_add (Fin a) c = Fin (a + c)"
| "ecost_add Infty c = Infty"

fun ecost_less :: "ecost \<Rightarrow> ecost \<Rightarrow> bool" where
  "ecost_less (Fin a) (Fin b) = (a < b)"
| "ecost_less (Fin a) Infty = True"
| "ecost_less Infty b = False"

fun ecost_le :: "ecost \<Rightarrow> ecost \<Rightarrow> bool" where
  "ecost_le (Fin a) (Fin b) = (a \<le> b)"
| "ecost_le a Infty = True"
| "ecost_le Infty (Fin b) = False"


datatype error = KeyError

text \<open>
  \<^verbatim>\<open>dp\<close> is a \<^verbatim>\<open>defaultdict\<close> whose missing rows read as infinite for both hands: a total
  function from the index (the base row is index -1) and the hand to the entry.
\<close>

record dp_state =
  dp :: "int \<Rightarrow> hand \<Rightarrow> ecost"
  hand_assignment :: assignments

definition dp_init :: dp_state where
  "dp_init = \<lparr> dp = (\<lambda>i h. Infty)(- 1 := (\<lambda>h. Fin 0)), hand_assignment = [] \<rparr>"

text \<open>The innermost loop body (lines 134 to 140), for one \<^verbatim>\<open>prev_hand\<close>.\<close>

definition dp_relax :: "nat \<Rightarrow> hand \<Rightarrow> rat \<Rightarrow> hand \<Rightarrow> dp_state \<Rightarrow> dp_state" where
  "dp_relax i h cost_to_assign_hand prev_hand s =
     (let prev_cost = dp s (int i - 1) prev_hand;
          current_total_cost = ecost_add prev_cost cost_to_assign_hand
      in if ecost_less current_total_cost (dp s (int i) h)
         then \<lparr> dp = (dp s)(int i := (dp s (int i))(h := current_total_cost)),
                hand_assignment = AList.update (i, h) prev_hand (hand_assignment s) \<rparr>
         else s)"

text \<open>The loop body for one \<^verbatim>\<open>hand\<close> (lines 130 to 140): the cost is computed before the inner loop.\<close>

definition dp_hand :: "Note list \<Rightarrow> int \<Rightarrow> int \<Rightarrow> nat \<Rightarrow> hand \<Rightarrow> dp_state \<Rightarrow> dp_state" where
  "dp_hand notes max_fingers allowed_spread i h s =
     (let cost_to_assign_hand =
            calculate_cost (notes ! i) h (hand_assignment s) (take i notes) max_fingers allowed_spread
      in fold (dp_relax i h cost_to_assign_hand) [Left, Right] s)"

definition dp_note :: "Note list \<Rightarrow> int \<Rightarrow> int \<Rightarrow> nat \<Rightarrow> dp_state \<Rightarrow> dp_state" where
  "dp_note notes max_fingers allowed_spread i s =
     fold (dp_hand notes max_fingers allowed_spread i) [Left, Right] s"

definition dp_fill :: "Note list \<Rightarrow> int \<Rightarrow> int \<Rightarrow> dp_state" where
  "dp_fill notes max_fingers allowed_spread =
     fold (dp_note notes max_fingers allowed_spread) [0..<length notes] dp_init"

definition final_hand_of :: "dp_state \<Rightarrow> nat \<Rightarrow> hand" where
  "final_hand_of s n_notes =
     (if ecost_le (dp s (int n_notes - 1) Left) (dp s (int n_notes - 1) Right) then Left else Right)"


text \<open>
  The backward loop of lines 152 to 154 over the indices it is given; reading a key that
  \<^verbatim>\<open>hand_assignment\<close> lacks raises \<^verbatim>\<open>KeyError\<close>.
\<close>

fun backtrack :: "assignments \<Rightarrow> nat list \<Rightarrow> hand \<times> (nat \<rightharpoonup> hand) \<Rightarrow> error + (hand \<times> (nat \<rightharpoonup> hand))" where
  "backtrack ha [] st = Inr st"
| "backtrack ha (i # is) (final_hand, fha) =
     (case map_of ha (i + 1, final_hand) of
        None \<Rightarrow> Inl KeyError
      | Some p \<Rightarrow> backtrack ha is (p, fha(i \<mapsto> p)))"

definition final_hand_assignments :: "dp_state \<Rightarrow> nat \<Rightarrow> error + (nat \<rightharpoonup> hand)" where
  "final_hand_assignments s n_notes =
     (let final_hand = final_hand_of s n_notes
      in case backtrack (hand_assignment s) (rev [0..<n_notes - 1])
                (final_hand, [n_notes - 1 \<mapsto> final_hand]) of
           Inl e \<Rightarrow> Inl e
         | Inr (_, fha) \<Rightarrow> Inr fha)"

text \<open>The last loop (lines 158 to 163).\<close>

fun split_hands ::
  "(nat \<rightharpoonup> hand) \<Rightarrow> Note list \<Rightarrow> nat list \<Rightarrow> Note list \<times> Note list \<Rightarrow> error + (Note list \<times> Note list)" where
  "split_hands fha notes [] out = Inr out"
| "split_hands fha notes (i # is) (left_hand_notes, right_hand_notes) =
     (case fha i of
        None \<Rightarrow> Inl KeyError
      | Some h \<Rightarrow>
          if h = Left then split_hands fha notes is (left_hand_notes @ [notes ! i], right_hand_notes)
          else split_hands fha notes is (left_hand_notes, right_hand_notes @ [notes ! i]))"

text \<open>
  The tables of one call: none when the call returns at line 117, before they are created.
\<close>

definition dp_tables :: "midi_data \<Rightarrow> int \<Rightarrow> int \<Rightarrow> dp_state option" where
  "dp_tables midi max_fingers allowed_spread =
     (let notes = sort_notes (extract_notes midi)
      in if length notes = 0 then None else Some (dp_fill notes max_fingers allowed_spread))"

definition dynamic_programming_assign_hands ::
  "midi_data \<Rightarrow> int \<Rightarrow> int \<Rightarrow> error + (Note list \<times> Note list)" where
  "dynamic_programming_assign_hands midi max_fingers allowed_spread =
     (let notes = sort_notes (extract_notes midi);
          n_notes = length notes
      in case dp_tables midi max_fingers allowed_spread of
           None \<Rightarrow> Inr ([], [])
         | Some s \<Rightarrow>
             (case final_hand_assignments s n_notes of
                Inl e \<Rightarrow> Inl e
              | Inr fha \<Rightarrow> split_hands fha notes [0..<n_notes] ([], [])))"

subsection \<open>Auxiliary definitions\<close>

text \<open>The tuple \<^verbatim>\<open>(note.pitch, note.start, note.end, note.velocity)\<close> built at lines 26 and 112.\<close>

definition mk_note :: "int \<Rightarrow> rat \<Rightarrow> rat \<Rightarrow> int \<Rightarrow> Note" where
  "mk_note p s e v = \<lparr> note_pitch = p, note_start = s, note_end = e, note_velocity = v \<rparr>"

text \<open>
  States of the greedy engine in which nothing has gone to the left hand and the right hand
  holds at most \<open>k\<close> active notes, all between E4 and C5.
\<close>

definition in_reach :: "nat \<Rightarrow> greedy_state \<Rightarrow> bool" where
  "in_reach k s \<longleftrightarrow> left_hand s = [] \<and> active_notes s Left = []
     \<and> length (active_notes s Right) \<le> k
     \<and> (\<forall>m \<in> set (active_notes s Right). 64 \<le> note_pitch m \<and> note_pitch m \<le> 72)"


subsection \<open>The cost formula and the active set as the specification words them\<close>

text \<open>
  The active set of a hand at time \<open>t\<close>, in the words of the specification: the notes
  already assigned to that hand whose offset is strictly greater than \<open>t\<close>.
\<close>

definition spec_active_set :: "Note list \<Rightarrow> rat \<Rightarrow> Note list" where
  "spec_active_set assigned t = filter (\<lambda>m. note_end m > t) assigned"

text \<open>
  The cost of a note for a hand whose active notes have the pitches \<open>active\<close>, in the words
  of the specification: the sum of the span, finger, register and density terms.
\<close>

definition spec_cost :: "int \<Rightarrow> int \<Rightarrow> int \<Rightarrow> hand \<Rightarrow> int list \<Rightarrow> rat" where
  "spec_cost max_fingers allowed_spread pitch h active =
     (let new_span = (if active = [] then 0
                      else Max (set (pitch # active)) - Min (set (pitch # active)));
          span_cost = of_int ((max 0 (new_span - allowed_spread))\<^sup>2);
          classes = (\<lambda>p. p mod 12) ` set active;
          finger_cost = (if int (card classes) \<ge> max_fingers \<and> pitch mod 12 \<notin> classes
                         then 2 else 0);
          reg_cost = (if (h = Left \<and> pitch \<ge> 60) \<or> (h = Right \<and> pitch < 60) then 4 / 5 else 0);
          density_cost = (1 / 5) * of_nat (length active)
      in span_cost + finger_cost + reg_cost + density_cost)"


subsection \<open>Observing the engines\<close>

text \<open>The hand that one iteration of the greedy loop appends the note to (lines 77 to 90).\<close>

definition greedy_choice :: "int \<Rightarrow> int \<Rightarrow> Note \<Rightarrow> greedy_state \<Rightarrow> hand" where
  "greedy_choice max_fingers allowed_spread n s =
     (let costs = greedy_costs max_fingers allowed_spread n s
      in if costs Left < costs Right * (9 / 10) then Left
         else if costs Right < costs Left * (9 / 10) then Right
         else if length (left_hand s) > length (right_hand s) then Right
         else Left)"

fun greedy_labels :: "int \<Rightarrow> int \<Rightarrow> Note list \<Rightarrow> greedy_state \<Rightarrow> hand list" where
  "greedy_labels mf sp [] s = []"
| "greedy_labels mf sp (n # ns) s =
     greedy_choice mf sp n s # greedy_labels mf sp ns (greedy_step mf sp n s)"


text \<open>The tables of the DP engine after the outer loop has processed the indices below \<open>k\<close>.\<close>

definition dp_upto :: "Note list \<Rightarrow> int \<Rightarrow> int \<Rightarrow> nat \<Rightarrow> dp_state" where
  "dp_upto notes max_fingers allowed_spread k =
     fold (dp_note notes max_fingers allowed_spread) [0..<k] dp_init"

text \<open>
  The value of the variable \<^verbatim>\<open>cost_to_assign_hand\<close> in iteration \<open>(i, h)\<close>: the cost is
  computed with the table \<^verbatim>\<open>hand_assignment\<close> as it is at that moment, which for
  \<^verbatim>\<open>'right'\<close> already has the entry written for \<^verbatim>\<open>(i, 'left')\<close>.
\<close>

definition cost_to_assign_hand :: "Note list \<Rightarrow> int \<Rightarrow> int \<Rightarrow> nat \<Rightarrow> hand \<Rightarrow> rat" where
  "cost_to_assign_hand notes max_fingers allowed_spread i h =
     calculate_cost (notes ! i) h
       (hand_assignment
          (case h of
             Left \<Rightarrow> dp_upto notes max_fingers allowed_spread i
           | Right \<Rightarrow> dp_hand notes max_fingers allowed_spread i Left
                        (dp_upto notes max_fingers allowed_spread i)))
       (take i notes) max_fingers allowed_spread"


subsection \<open>Notions used in the proofs about the DP engine\<close>

text \<open>The keys \<open>(j, Left), (j, Right)\<close> for \<open>j < k\<close>, in the order the engine inserts them.\<close>

definition hand_keys :: "nat \<Rightarrow> (nat \<times> hand) list" where
  "hand_keys k = concat (map (\<lambda>j. [(j, Left), (j, Right)]) [0..<k])"

text \<open>The pitches of all notes before index \<open>k\<close> that still sound when note \<open>k\<close> starts.\<close>

definition all_active :: "Note list \<Rightarrow> nat \<Rightarrow> int list" where
  "all_active notes k =
     map note_pitch (filter (\<lambda>m. note_end m > note_start (notes ! k)) (take k notes))"

definition dp_cost :: "Note list \<Rightarrow> int \<Rightarrow> int \<Rightarrow> nat \<Rightarrow> hand \<Rightarrow> rat" where
  "dp_cost notes mf sp j h = spec_cost mf sp (note_pitch (notes ! j)) h (all_active notes j)"

text \<open>The loop invariant of the outer loop of the DP engine, after the indices below \<open>k\<close>.\<close>

definition dp_inv :: "Note list \<Rightarrow> int \<Rightarrow> int \<Rightarrow> nat \<Rightarrow> dp_state \<Rightarrow> bool" where
  "dp_inv notes mf sp k s \<longleftrightarrow>
     map fst (hand_assignment s) = hand_keys k
     \<and> dp s (- 1) Left = Fin 0 \<and> dp s (- 1) Right = Fin 0
     \<and> (\<forall>j. int k \<le> j \<longrightarrow> dp s j Left = Infty \<and> dp s j Right = Infty)
     \<and> (\<forall>j < k. \<forall>h. \<exists>a b.
          dp s (int j - 1) Left = Fin a \<and> dp s (int j - 1) Right = Fin b
          \<and> dp s (int j) h = Fin (min a b + dp_cost notes mf sp j h)
          \<and> map_of (hand_assignment s) (j, h) = Some (if b < a then Right else Left))"

subsection \<open>Inputs used in the examples\<close>


text \<open>One instrument with two long, loud, overlapping notes: E4 from second 0, then E2 from second 1.\<close>

definition ex_pair :: midi_data where
  "ex_pair = [[mk_note 64 0 10 100, mk_note 40 1 10 100]]"

text \<open>Two overlapping notes of velocity 1: E4 from second 1 to 3, F#4 from second 2 to 4.\<close>

definition ex_quiet :: midi_data where
  "ex_quiet = [[mk_note 64 1 3 1, mk_note 66 2 4 1]]"


section \<open>Properties\<close>

subsection \<open>Basic facts\<close>

lemma mk_note_sel [simp]:
  "note_pitch (mk_note p s e v) = p" "note_start (mk_note p s e v) = s"
  "note_end (mk_note p s e v) = e" "note_velocity (mk_note p s e v) = v"
  by (simp_all add: mk_note_def)




lemma prune_subset: "set (prune t ns) \<subseteq> set ns"
  by (auto simp: prune_def)

lemma prune_Nil: "prune t [] = []"
  by (simp add: prune_def)

lemma prune_length: "length (prune t ns) \<le> length ns"
  by (simp add: prune_def)

subsection \<open>The greedy engine only appends\<close>

lemma greedy_step_lists:
  "(left_hand (greedy_step mf sp n s) = left_hand s @ [n]
      \<and> right_hand (greedy_step mf sp n s) = right_hand s)
   \<or> (left_hand (greedy_step mf sp n s) = left_hand s
      \<and> right_hand (greedy_step mf sp n s) = right_hand s @ [n])"
  by (simp add: greedy_step_def Let_def append_left_def append_right_def)

lemma greedy_run_Cons:
  "greedy_run mf sp (n # ns) s = greedy_run mf sp ns (greedy_step mf sp n s)"
  by (simp add: greedy_run_def)

lemma greedy_run_extends:
  "\<exists>ls rs. left_hand (greedy_run mf sp ns s) = left_hand s @ ls
         \<and> right_hand (greedy_run mf sp ns s) = right_hand s @ rs
         \<and> mset ls + mset rs = mset ns"
proof (induction ns arbitrary: s)
  case Nil
  then show ?case by (simp add: greedy_run_def)
next
  case (Cons n ns)
  let ?t = "greedy_step mf sp n s"
  obtain ls rs where r: "left_hand (greedy_run mf sp ns ?t) = left_hand ?t @ ls"
     "right_hand (greedy_run mf sp ns ?t) = right_hand ?t @ rs"
     "mset ls + mset rs = mset ns"
    using Cons.IH by blast
  from greedy_step_lists [of mf sp n s] show ?case
  proof
    assume a: "left_hand ?t = left_hand s @ [n] \<and> right_hand ?t = right_hand s"
    show ?thesis
      apply (rule exI [of _ "n # ls"], rule exI [of _ rs])
      using a r by (simp add: greedy_run_Cons)
  next
    assume a: "left_hand ?t = left_hand s \<and> right_hand ?t = right_hand s @ [n]"
    show ?thesis
      apply (rule exI [of _ ls], rule exI [of _ "n # rs"])
      using a r by (simp add: greedy_run_Cons)
  qed
qed

text \<open>The labels observed by \<open>greedy_labels\<close> are the hands the engine appends to.\<close>

lemma greedy_step_choice:
  "greedy_step mf sp n s =
     (case greedy_choice mf sp n s of
        Left \<Rightarrow> append_left n (fst (greedy_states n s)) s
      | Right \<Rightarrow> append_right n (fst (greedy_states n s)) s)"
  by (simp add: greedy_step_def greedy_choice_def Let_def)

lemma greedy_labels_length: "length (greedy_labels mf sp ns s) = length ns"
  by (induction ns arbitrary: s) simp_all

lemma greedy_run_labels:
  "left_hand (greedy_run mf sp ns s)
     = left_hand s @ map fst (filter (\<lambda>x. snd x = Left) (zip ns (greedy_labels mf sp ns s)))
   \<and> right_hand (greedy_run mf sp ns s)
     = right_hand s @ map fst (filter (\<lambda>x. snd x = Right) (zip ns (greedy_labels mf sp ns s)))"
proof (induction ns arbitrary: s)
  case Nil
  then show ?case by (simp add: greedy_run_def)
next
  case (Cons n ns)
  show ?case
  proof (cases "greedy_choice mf sp n s")
    case Left
    then have "greedy_step mf sp n s = append_left n (fst (greedy_states n s)) s"
      by (simp add: greedy_step_choice)
    then have "left_hand (greedy_step mf sp n s) = left_hand s @ [n]"
      "right_hand (greedy_step mf sp n s) = right_hand s"
      by (simp_all add: append_left_def)
    then show ?thesis
      using Cons [of "greedy_step mf sp n s"] Left by (simp add: greedy_run_Cons)
  next
    case Right
    then have "greedy_step mf sp n s = append_right n (fst (greedy_states n s)) s"
      by (simp add: greedy_step_choice)
    then have "left_hand (greedy_step mf sp n s) = left_hand s"
      "right_hand (greedy_step mf sp n s) = right_hand s @ [n]"
      by (simp_all add: append_right_def)
    then show ?thesis
      using Cons [of "greedy_step mf sp n s"] Right by (simp add: greedy_run_Cons)
  qed
qed

subsection \<open>C3: the decision rule of the greedy engine\<close>







subsection \<open>C7: register pressure on five rising notes\<close>

lemma cost_left_reach:
  assumes "in_reach k s"
  shows "greedy_costs 5 8 n s Left
         = register_cost Left (note_pitch n)
           + (1 / 5) * of_nat (length (prune (note_start n) (active_notes s Right)))"
  using assms
  by (simp add: in_reach_def greedy_costs_def greedy_states_def Let_def greedy_cost_def
      make_state_def prune_def)

lemma cost_right_reach:
  assumes "in_reach k s" "k \<le> 4" "64 \<le> note_pitch n" "note_pitch n \<le> 72"
  shows "greedy_costs 5 8 n s Right
         = (1 / 5) * of_nat (length (prune (note_start n) (active_notes s Right)))"
proof -
  let ?act = "prune (note_start n) (active_notes s Right)"
  let ?cp = "map note_pitch ?act"
  have rng: "\<forall>p \<in> set ?cp. 64 \<le> p \<and> p \<le> 72"
    using assms(1) prune_subset [of "note_start n" "active_notes s Right"]
    by (auto simp: in_reach_def)
  have len: "length ?cp \<le> 4"
    using assms(1,2) prune_length [of "note_start n" "active_notes s Right"]
    by (simp add: in_reach_def)
  have "card ((\<lambda>p. p mod 12) ` set ?cp) \<le> length ?cp"
    by (meson card_image_le card_length le_trans List.finite_set)
  then have fingers: "\<not> 5 \<le> int (card ((\<lambda>p. p mod 12) ` set ?cp))"
    using len by linarith
  have span: "max (Max (set ?cp)) (note_pitch n) - min (Min (set ?cp)) (note_pitch n) \<le> 8"
    if ne: "?cp \<noteq> []"
  proof -
    from ne have "Max (set ?cp) \<in> set ?cp" "Min (set ?cp) \<in> set ?cp"
      by (simp_all del: set_map)
    then have "Max (set ?cp) \<le> 72" "64 \<le> Min (set ?cp)"
      using rng by blast+
    then show ?thesis using assms(3,4) by linarith
  qed
  have reg: "register_cost Right (note_pitch n) = 0"
    using assms(3) by (simp add: register_cost_def)
  show ?thesis
  proof (cases "?cp = []")
    case True
    then show ?thesis
      using reg
      by (simp add: greedy_costs_def greedy_states_def Let_def greedy_cost_def make_state_def)
  next
    case False
    have m0: "max 0 (max (Max (set ?cp)) (note_pitch n) - min (Min (set ?cp)) (note_pitch n) - 8) = 0"
      using span [OF False] by linarith
    show ?thesis
      using False reg fingers m0
      by (simp add: greedy_costs_def greedy_states_def Let_def greedy_cost_def make_state_def
          del: set_map)
  qed
qed

lemma step_reach:
  assumes "in_reach k s" "k \<le> 4" "64 \<le> note_pitch n" "note_pitch n \<le> 72"
  shows "in_reach (Suc k) (greedy_step 5 8 n s)
       \<and> right_hand (greedy_step 5 8 n s) = right_hand s @ [n]"
proof -
  let ?d = "(1 / 5) * of_nat (length (prune (note_start n) (active_notes s Right))) :: rat"
  have cl: "greedy_costs 5 8 n s Left = 4 / 5 + ?d"
    using cost_left_reach [OF assms(1), of n] assms(3) by (simp add: register_cost_def)
  have cr: "greedy_costs 5 8 n s Right = ?d"
    using cost_right_reach [OF assms] .
  have len: "length (prune (note_start n) (active_notes s Right)) \<le> 4"
    using assms(1,2) prune_length [of "note_start n" "active_notes s Right"]
    by (simp add: in_reach_def)
  then have dle: "?d \<le> 4 / 5" by simp
  have d0: "0 \<le> ?d" by simp
  have ab: "\<not> (4 / 5 + d < d * (9 / 10)) \<and> d < (4 / 5 + d) * (9 / 10)"
    if "0 \<le> d" "d \<le> 4 / 5" for d :: rat
    using that by (simp add: algebra_simps)
  have a: "\<not> (4 / 5 + ?d < ?d * (9 / 10))" and b: "?d < (4 / 5 + ?d) * (9 / 10)"
    using ab [OF d0 dle] by blast+
  have step: "greedy_step 5 8 n s = append_right n (fst (greedy_states n s)) s"
    using a b by (simp add: greedy_step_def Let_def cl cr)
  have lenk: "length (prune (note_start n) (active_notes s Right)) \<le> k"
    using assms(1) prune_length [of "note_start n" "active_notes s Right"]
    by (simp add: in_reach_def)
  show ?thesis
    using assms(1,3,4) lenk prune_subset [of "note_start n" "active_notes s Right"]
    by (auto simp: step append_right_def in_reach_def greedy_states_def Let_def prune_Nil)
qed

lemma sort_notes_seq5:
  "sort_notes [mk_note 64 t (t + 1 / 2) v1, mk_note 66 (t + 1 / 2) (t + 1) v2,
               mk_note 68 (t + 1) (t + 3 / 2) v3, mk_note 70 (t + 3 / 2) (t + 2) v4,
               mk_note 72 (t + 2) (t + 5 / 2) v5]
   = [mk_note 64 t (t + 1 / 2) v1, mk_note 66 (t + 1 / 2) (t + 1) v2,
      mk_note 68 (t + 1) (t + 3 / 2) v3, mk_note 70 (t + 3 / 2) (t + 2) v4,
      mk_note 72 (t + 2) (t + 5 / 2) v5]"
  by (simp add: sort_notes_def less_eq_prod_def)

text \<open>
  Claim C7. Five notes at pitches 64, 66, 68, 70, 72, each half a second long and each
  starting when the one before ends, given to the greedy engine with \<open>max_fingers = 5\<close> and
  \<open>allowed_spread = 8\<close>: all five come back in the right hand and the left hand is empty.
  This holds whenever the first note starts (\<open>t\<close>) and whatever the five velocities are.
\<close>

theorem register_pressure_example:
  "assign_notes_to_hands
     [[mk_note 64 t (t + 1 / 2) v1, mk_note 66 (t + 1 / 2) (t + 1) v2,
       mk_note 68 (t + 1) (t + 3 / 2) v3, mk_note 70 (t + 3 / 2) (t + 2) v4,
       mk_note 72 (t + 2) (t + 5 / 2) v5]] 5 8
   = ([], [mk_note 64 t (t + 1 / 2) v1, mk_note 66 (t + 1 / 2) (t + 1) v2,
           mk_note 68 (t + 1) (t + 3 / 2) v3, mk_note 70 (t + 3 / 2) (t + 2) v4,
           mk_note 72 (t + 2) (t + 5 / 2) v5])"
proof -
  let ?n1 = "mk_note 64 t (t + 1 / 2) v1" and ?n2 = "mk_note 66 (t + 1 / 2) (t + 1) v2"
  let ?n3 = "mk_note 68 (t + 1) (t + 3 / 2) v3" and ?n4 = "mk_note 70 (t + 3 / 2) (t + 2) v4"
  let ?n5 = "mk_note 72 (t + 2) (t + 5 / 2) v5"
  let ?st = "greedy_step 5 8"
  have r0: "in_reach 0 greedy_init" "right_hand greedy_init = []"
    by (simp_all add: in_reach_def greedy_init_def)
  have s1: "in_reach 1 (?st ?n1 greedy_init)" "right_hand (?st ?n1 greedy_init) = [?n1]"
    using step_reach [OF r0(1), of ?n1] r0(2) by simp_all
  have s2: "in_reach 2 (?st ?n2 (?st ?n1 greedy_init))"
    "right_hand (?st ?n2 (?st ?n1 greedy_init)) = [?n1, ?n2]"
    using step_reach [OF s1(1), of ?n2] s1(2) by (simp_all add: eval_nat_numeral)
  have s3: "in_reach 3 (?st ?n3 (?st ?n2 (?st ?n1 greedy_init)))"
    "right_hand (?st ?n3 (?st ?n2 (?st ?n1 greedy_init))) = [?n1, ?n2, ?n3]"
    using step_reach [OF s2(1), of ?n3] s2(2) by (simp_all add: eval_nat_numeral)
  have s4: "in_reach 4 (?st ?n4 (?st ?n3 (?st ?n2 (?st ?n1 greedy_init))))"
    "right_hand (?st ?n4 (?st ?n3 (?st ?n2 (?st ?n1 greedy_init)))) = [?n1, ?n2, ?n3, ?n4]"
    using step_reach [OF s3(1), of ?n4] s3(2) by (simp_all add: eval_nat_numeral)
  have s5: "in_reach 5 (?st ?n5 (?st ?n4 (?st ?n3 (?st ?n2 (?st ?n1 greedy_init)))))"
    "right_hand (?st ?n5 (?st ?n4 (?st ?n3 (?st ?n2 (?st ?n1 greedy_init)))))
       = [?n1, ?n2, ?n3, ?n4, ?n5]"
    using step_reach [OF s4(1), of ?n5] s4(2) by (simp_all add: eval_nat_numeral)
  show ?thesis
    using s5 unfolding in_reach_def
    by (simp add: assign_notes_to_hands_def extract_notes_def sort_notes_seq5 greedy_run_def Let_def)
qed

subsection \<open>The active pitches and the cost that \<^verbatim>\<open>calculate_cost\<close> sees\<close>

lemma anp_filter:
  "active_notes_pitch h st prev items =
     map (\<lambda>key. note_pitch (prev ! fst key))
       (filter (\<lambda>key. fst key < length prev \<and> snd key = h \<and> note_end (prev ! fst key) > st)
          (map fst items))"
  by (induction h st prev items rule: active_notes_pitch.induct) (auto simp: Let_def)

lemma hand_keys_Suc: "hand_keys (Suc k) = hand_keys k @ [(k, Left), (k, Right)]"
  by (simp add: hand_keys_def)

lemma hand_keys_0: "hand_keys 0 = []"
  by (simp add: hand_keys_def)

lemma set_hand_keys: "set (hand_keys k) = {j. j < k} \<times> UNIV"
proof -
  have "UNIV = {Left, Right}" using hand.exhaust by auto
  then show ?thesis by (auto simp: hand_keys_def)
qed

lemma hand_keys_filter:
  "k \<le> length prev \<Longrightarrow>
   map (\<lambda>key. note_pitch (prev ! fst key))
     (filter (\<lambda>key. fst key < length prev \<and> snd key = h \<and> note_end (prev ! fst key) > st)
        (hand_keys k))
   = map note_pitch (filter (\<lambda>m. note_end m > st) (take k prev))"
proof (induction k)
  case 0
  then show ?case by (simp add: hand_keys_0)
next
  case (Suc k)
  then have k: "k < length prev" by simp
  have "take (Suc k) prev = take k prev @ [prev ! k]"
    using k by (simp add: take_Suc_conv_app_nth)
  then show ?case
    using Suc k by (cases h) (simp_all add: hand_keys_Suc)
qed

lemma hand_keys_split: "j \<le> k \<Longrightarrow> \<exists>rest. hand_keys k = hand_keys j @ rest \<and> (\<forall>key \<in> set rest. j \<le> fst key)"
proof (induction k)
  case 0
  then show ?case by simp
next
  case (Suc k)
  show ?case
  proof (cases "j = Suc k")
    case True
    then show ?thesis by simp
  next
    case False
    then have "j \<le> k" using Suc.prems by simp
    then obtain rest where "hand_keys k = hand_keys j @ rest" "\<forall>key \<in> set rest. j \<le> fst key"
      using Suc.IH by blast
    then show ?thesis
      using \<open>j \<le> k\<close>
      by (intro exI [of _ "rest @ [(k, Left), (k, Right)]"]) (simp add: hand_keys_Suc)
  qed
qed

lemma anp_all_active:
  assumes "map fst items = hand_keys k @ ex" "j \<le> k" "j < length notes"
    and "\<forall>key \<in> set ex. j \<le> fst key"
  shows "active_notes_pitch h (note_start (notes ! j)) (take j notes) items = all_active notes j"
proof -
  let ?prev = "take j notes"
  let ?P = "\<lambda>key. fst key < length ?prev \<and> snd key = h
                \<and> note_end (?prev ! fst key) > note_start (notes ! j)"
  have len: "length ?prev = j" using assms(3) by simp
  obtain rest where rest: "hand_keys k = hand_keys j @ rest" "\<forall>key \<in> set rest. j \<le> fst key"
    using hand_keys_split [OF assms(2)] by blast
  have "filter ?P rest = []" "filter ?P ex = []"
    using rest(2) assms(4) len by (auto simp: filter_empty_conv)
  then have "filter ?P (map fst items) = filter ?P (hand_keys j)"
    by (simp add: assms(1) rest(1))
  then have "active_notes_pitch h (note_start (notes ! j)) ?prev items
      = map (\<lambda>key. note_pitch (?prev ! fst key)) (filter ?P (hand_keys j))"
    by (simp add: anp_filter)
  also have "\<dots> = map note_pitch (filter (\<lambda>m. note_end m > note_start (notes ! j)) (take j ?prev))"
    using hand_keys_filter [of j ?prev h "note_start (notes ! j)"] len by simp
  finally show ?thesis by (simp add: all_active_def)
qed

lemma calculate_cost_spec:
  "calculate_cost n h ha prev mf sp
   = spec_cost mf sp (note_pitch n) h (active_notes_pitch h (note_start n) prev ha)"
proof -
  let ?cp = "active_notes_pitch h (note_start n) prev ha"
  have img: "(\<lambda>p. p mod 12) ` (\<lambda>p. p mod 12) ` set ?cp = (\<lambda>p::int. p mod 12) ` set ?cp"
    by (auto simp: image_iff)
  show ?thesis
  proof (cases "?cp = []")
    case True
    then show ?thesis
      by (simp add: calculate_cost_def spec_cost_def Let_def make_state_def register_cost_def)
  next
    case False
    then have "Max (insert (note_pitch n) (set ?cp)) = max (note_pitch n) (Max (set ?cp))"
      "Min (insert (note_pitch n) (set ?cp)) = min (note_pitch n) (Min (set ?cp))"
      by (simp_all del: set_map)
    then show ?thesis
      using False img
      by (simp add: calculate_cost_def spec_cost_def Let_def make_state_def register_cost_def
          max.commute min.commute)
  qed
qed

lemma dp_hand_eq:
  assumes "dp s (int i - 1) Left = Fin a" "dp s (int i - 1) Right = Fin b"
    and "dp s (int i) h = Infty"
  shows "dp_hand notes mf sp i h s =
     \<lparr> dp = (dp s)(int i := (dp s (int i))
               (h := Fin (min a b + calculate_cost (notes ! i) h (hand_assignment s) (take i notes) mf sp))),
       hand_assignment = AList.update (i, h) (if b < a then Right else Left) (hand_assignment s) \<rparr>"
  using assms
  by (auto simp: dp_hand_def dp_relax_def Let_def min_def fun_upd_twist)

subsection \<open>The loop invariant of the DP engine\<close>

lemma map_of_update_other:
  "k' \<noteq> k \<Longrightarrow> map_of (AList.update k v al) k' = map_of al k'"
  by (simp add: update_conv')

lemma update_fresh_keys:
  "k \<notin> set (map fst al) \<Longrightarrow> map fst (AList.update k v al) = map fst al @ [k]"
  by (simp add: update_keys)

lemma update_present_keys:
  "k \<in> set (map fst al) \<Longrightarrow> map fst (AList.update k v al) = map fst al"
  by (simp add: update_keys)

lemma dp_inv_step:
  assumes inv: "dp_inv notes mf sp k s" and k: "k < length notes"
  shows "dp_inv notes mf sp (Suc k) (dp_note notes mf sp k s)"
proof -
  let ?ha = "hand_assignment s"
  have keys: "map fst ?ha = hand_keys k"
    and base: "dp s (- 1) Left = Fin 0" "dp s (- 1) Right = Fin 0"
    and inf: "\<And>j. int k \<le> j \<Longrightarrow> dp s j Left = Infty \<and> dp s j Right = Infty"
    and ent: "\<And>j h. j < k \<Longrightarrow> \<exists>a b.
          dp s (int j - 1) Left = Fin a \<and> dp s (int j - 1) Right = Fin b
          \<and> dp s (int j) h = Fin (min a b + dp_cost notes mf sp j h)
          \<and> map_of ?ha (j, h) = Some (if b < a then Right else Left)"
    using inv unfolding dp_inv_def by blast+
  obtain a b where ab: "dp s (int k - 1) Left = Fin a" "dp s (int k - 1) Right = Fin b"
  proof (cases k)
    case 0
    then show ?thesis using base that by simp
  next
    case (Suc j)
    then have "j < k" by simp
    from ent [OF this, of Left] ent [OF this, of Right] show ?thesis
      using that Suc by auto
  qed
  let ?p = "if b < a then Right else Left"
  let ?cL = "calculate_cost (notes ! k) Left ?ha (take k notes) mf sp"
  have cL: "?cL = dp_cost notes mf sp k Left"
    using anp_all_active [of ?ha k "[]" k "notes" Left] keys k
    by (simp add: calculate_cost_spec dp_cost_def)
  let ?s1 = "dp_hand notes mf sp k Left s"
  have s1: "?s1 = \<lparr> dp = (dp s)(int k := (dp s (int k))(Left := Fin (min a b + dp_cost notes mf sp k Left))),
                    hand_assignment = AList.update (k, Left) ?p ?ha \<rparr>"
    using dp_hand_eq [OF ab, of Left "notes" mf sp] inf [of "int k"] cL by simp
  have fresh: "(k, Left) \<notin> set (map fst ?ha)" "(k, Right) \<notin> set (map fst ?ha)"
    by (simp_all add: keys set_hand_keys)
  have keys1: "map fst (hand_assignment ?s1) = hand_keys k @ [(k, Left)]"
    using update_fresh_keys [OF fresh(1)] by (simp add: s1 keys)
  let ?cR = "calculate_cost (notes ! k) Right (hand_assignment ?s1) (take k notes) mf sp"
  have cR: "?cR = dp_cost notes mf sp k Right"
    using anp_all_active [of "hand_assignment ?s1" k "[(k, Left)]" k "notes" Right] keys1 k
    by (simp add: calculate_cost_spec dp_cost_def)
  have ab1: "dp ?s1 (int k - 1) Left = Fin a" "dp ?s1 (int k - 1) Right = Fin b"
    "dp ?s1 (int k) Right = Infty"
    using ab inf [of "int k"] by (simp_all add: s1)
  let ?s2 = "dp_hand notes mf sp k Right ?s1"
  have s2: "?s2 = \<lparr> dp = (dp ?s1)(int k := (dp ?s1 (int k))(Right := Fin (min a b + dp_cost notes mf sp k Right))),
                    hand_assignment = AList.update (k, Right) ?p (hand_assignment ?s1) \<rparr>"
    using dp_hand_eq [OF ab1, of "notes" mf sp] cR by simp
  have note_eq: "dp_note notes mf sp k s = ?s2"
    by (simp add: dp_note_def)
  have ha2: "hand_assignment ?s2 = AList.update (k, Right) ?p (AList.update (k, Left) ?p ?ha)"
    unfolding s2 by (simp add: s1)
  have dp2: "dp ?s2 = (dp s)(int k := (\<lambda>h. Fin (min a b + dp_cost notes mf sp k h)))"
  proof (rule ext, rule ext)
    fix j h
    show "dp ?s2 j h = ((dp s)(int k := (\<lambda>h. Fin (min a b + dp_cost notes mf sp k h)))) j h"
      unfolding s2 by (cases h) (simp_all add: s1)
  qed
  have keys2: "map fst (hand_assignment ?s2) = hand_keys (Suc k)"
  proof -
    have "(k, Right) \<notin> set (map fst (AList.update (k, Left) ?p ?ha))"
      using fresh by (simp add: update_keys)
    then show ?thesis
      using update_fresh_keys [of "(k, Right)" "AList.update (k, Left) ?p ?ha" ?p]
        update_fresh_keys [OF fresh(1), of ?p]
      by (simp add: ha2 keys hand_keys_Suc)
  qed
  have mo_old: "map_of (hand_assignment ?s2) (j, h) = map_of ?ha (j, h)" if "j < k" for j h
    using that by (simp add: ha2 update_conv')
  have mo_new: "map_of (hand_assignment ?s2) (k, h) = Some ?p" for h
    by (cases h) (simp_all add: ha2 update_conv')
  have ent2: "\<exists>a' b'. dp ?s2 (int j - 1) Left = Fin a' \<and> dp ?s2 (int j - 1) Right = Fin b'
          \<and> dp ?s2 (int j) h = Fin (min a' b' + dp_cost notes mf sp j h)
          \<and> map_of (hand_assignment ?s2) (j, h) = Some (if b' < a' then Right else Left)"
    if "j < Suc k" for j h
  proof (cases "j = k")
    case True
    show ?thesis
      apply (rule exI [of _ a], rule exI [of _ b])
      using ab mo_new [of h] by (simp add: True dp2)
  next
    case False
    then have jk: "j < k" using that by simp
    from ent [OF jk, of h] obtain a' b' where
      old: "dp s (int j - 1) Left = Fin a'" "dp s (int j - 1) Right = Fin b'"
      "dp s (int j) h = Fin (min a' b' + dp_cost notes mf sp j h)"
      "map_of ?ha (j, h) = Some (if b' < a' then Right else Left)"
      by blast
    show ?thesis
      apply (rule exI [of _ a'], rule exI [of _ b'])
      using old jk mo_old [OF jk, of h] by (simp add: dp2)
  qed
  have inf2: "dp ?s2 j Left = Infty \<and> dp ?s2 j Right = Infty" if "int (Suc k) \<le> j" for j
    using that inf [of j] by (simp add: dp2)
  have base2: "dp ?s2 (- 1) Left = Fin 0" "dp ?s2 (- 1) Right = Fin 0"
    using base by (simp_all add: dp2)
  show ?thesis
    unfolding dp_inv_def note_eq
    using keys2 base2 inf2 ent2 by blast
qed

lemma dp_inv_init: "dp_inv notes mf sp 0 dp_init"
  by (simp add: dp_inv_def dp_init_def hand_keys_0)

lemma dp_upto_Suc: "dp_upto notes mf sp (Suc k) = dp_note notes mf sp k (dp_upto notes mf sp k)"
  by (simp add: dp_upto_def)

lemma dp_inv_upto: "k \<le> length notes \<Longrightarrow> dp_inv notes mf sp k (dp_upto notes mf sp k)"
proof (induction k)
  case 0
  then show ?case by (simp add: dp_upto_def dp_inv_init)
next
  case (Suc k)
  then show ?case by (simp add: dp_upto_Suc dp_inv_step)
qed

lemma dp_fill_upto: "dp_fill notes mf sp = dp_upto notes mf sp (length notes)"
  by (simp add: dp_fill_def dp_upto_def)

lemma dp_inv_fill: "dp_inv notes mf sp (length notes) (dp_fill notes mf sp)"
  by (simp add: dp_fill_upto dp_inv_upto)

subsection \<open>Backtracking, splitting and the engines' results\<close>

lemma backtrack_ok:
  assumes "\<forall>i<m. \<forall>h. map_of ha (Suc i, h) \<noteq> None" and "fha m = Some fh"
  shows "\<exists>fh' fha'. backtrack ha (rev [0..<m]) (fh, fha) = Inr (fh', fha')
     \<and> (\<forall>j. m \<le> j \<longrightarrow> fha' j = fha j)
     \<and> (\<forall>i<m. fha' i \<noteq> None \<and> fha' i = map_of ha (Suc i, the (fha' (Suc i))))"
  using assms
proof (induction m arbitrary: fh fha)
  case 0
  then show ?case by simp
next
  case (Suc m)
  from Suc.prems(1) obtain p where p: "map_of ha (Suc m, fh) = Some p"
    by (meson lessI not_None_eq)
  have keys: "\<forall>i<m. \<forall>h. map_of ha (Suc i, h) \<noteq> None"
    using Suc.prems(1) by simp
  have "(fha(m \<mapsto> p)) m = Some p" by simp
  from Suc.IH [where fha = "fha(m \<mapsto> p)" and fh = p, OF keys this] obtain fh' fha' where
    r: "backtrack ha (rev [0..<m]) (p, fha(m \<mapsto> p)) = Inr (fh', fha')"
    and same: "\<forall>j. m \<le> j \<longrightarrow> fha' j = (fha(m \<mapsto> p)) j"
    and rec: "\<forall>i<m. fha' i \<noteq> None \<and> fha' i = map_of ha (Suc i, the (fha' (Suc i)))"
    by blast
  have m: "fha' m = Some p" using same by simp
  have sm: "fha' (Suc m) = Some fh" using same Suc.prems(2) by simp
  have here: "fha' m \<noteq> None \<and> fha' m = map_of ha (Suc m, the (fha' (Suc m)))"
    by (simp add: m sm p)
  have all: "\<forall>i<Suc m. fha' i \<noteq> None \<and> fha' i = map_of ha (Suc i, the (fha' (Suc i)))"
  proof (intro allI impI)
    fix i assume "i < Suc m"
    then have "i < m \<or> i = m" by linarith
    then show "fha' i \<noteq> None \<and> fha' i = map_of ha (Suc i, the (fha' (Suc i)))"
    proof
      assume "i < m"
      then show ?thesis using rec by blast
    next
      assume "i = m"
      then show ?thesis using here by blast
    qed
  qed
  have beyond: "\<forall>j. Suc m \<le> j \<longrightarrow> fha' j = fha j"
    using same by simp
  have "backtrack ha (rev [0..<Suc m]) (fh, fha) = Inr (fh', fha')"
    using p r by simp
  then show ?case using all beyond by blast
qed

lemma split_hands_eq:
  assumes "\<forall>i \<in> set is. fha i \<noteq> None"
  shows "split_hands fha ns is (l, r) =
     Inr (l @ map ((!) ns) (filter (\<lambda>i. fha i = Some Left) is),
          r @ map ((!) ns) (filter (\<lambda>i. fha i = Some Right) is))"
  using assms
proof (induction "is" arbitrary: l r)
  case Nil
  then show ?case by simp
next
  case (Cons i "is")
  then obtain h where h: "fha i = Some h" by auto
  show ?case
    using Cons h by (cases h) simp_all
qed

lemma mset_split_labels:
  assumes "\<forall>i < length ns. fha i \<noteq> None"
  shows "mset (map ((!) ns) (filter (\<lambda>i. fha i = Some Left) [0..<length ns]))
       + mset (map ((!) ns) (filter (\<lambda>i. fha i = Some Right) [0..<length ns])) = mset ns"
proof -
  have eq: "filter (\<lambda>i. fha i = Some Right) [0..<length ns]
          = filter (\<lambda>i. \<not> fha i = Some Left) [0..<length ns]"
  proof (rule filter_cong [OF refl])
    fix i assume "i \<in> set [0..<length ns]"
    then obtain h where "fha i = Some h" using assms by auto
    then show "(fha i = Some Right) = (\<not> fha i = Some Left)"
      by (cases h) simp_all
  qed
  have "mset (map ((!) ns) (filter (\<lambda>i. fha i = Some Left) [0..<length ns]))
       + mset (map ((!) ns) (filter (\<lambda>i. \<not> fha i = Some Left) [0..<length ns]))
       = mset (map ((!) ns) [0..<length ns])"
    by (simp only: mset_map mset_filter image_mset_union [symmetric] multiset_partition [symmetric])
  then show ?thesis by (simp add: eq map_nth)
qed

lemma dp_keys_defined:
  assumes "dp_inv ns mf sp k s" "j < k"
  shows "map_of (hand_assignment s) (j, h) \<noteq> None"
  using assms unfolding dp_inv_def by (metis option.distinct(1))

lemma final_hand_assignments_ok:
  assumes inv: "dp_inv ns mf sp n s" and n: "0 < n"
  shows "\<exists>fha. final_hand_assignments s n = Inr fha
     \<and> fha (n - 1) = Some (final_hand_of s n)
     \<and> (\<forall>i<n. fha i \<noteq> None)
     \<and> (\<forall>i. Suc i < n \<longrightarrow> fha i = map_of (hand_assignment s) (Suc i, the (fha (Suc i))))"
proof -
  let ?fh = "final_hand_of s n"
  have keys: "\<forall>i<n - 1. \<forall>h. map_of (hand_assignment s) (Suc i, h) \<noteq> None"
    using dp_keys_defined [OF inv] by simp
  have start: "[n - 1 \<mapsto> ?fh] (n - 1) = Some ?fh" by simp
  from backtrack_ok [where fha = "[n - 1 \<mapsto> ?fh]" and fh = ?fh, OF keys start] obtain fh' fha' where
    r: "backtrack (hand_assignment s) (rev [0..<n - 1]) (?fh, [n - 1 \<mapsto> ?fh]) = Inr (fh', fha')"
    and same: "\<forall>j. n - 1 \<le> j \<longrightarrow> fha' j = [n - 1 \<mapsto> ?fh] j"
    and rec: "\<forall>i<n - 1. fha' i \<noteq> None
                \<and> fha' i = map_of (hand_assignment s) (Suc i, the (fha' (Suc i)))"
    by blast
  have res: "final_hand_assignments s n = Inr fha'"
    using r by (simp add: final_hand_assignments_def Let_def)
  have last: "fha' (n - 1) = Some ?fh" using same by simp
  have def: "\<forall>i<n. fha' i \<noteq> None"
  proof (intro allI impI)
    fix i assume "i < n"
    then have "i < n - 1 \<or> i = n - 1" by linarith
    then show "fha' i \<noteq> None" using rec last by auto
  qed
  have walk: "\<forall>i. Suc i < n \<longrightarrow> fha' i = map_of (hand_assignment s) (Suc i, the (fha' (Suc i)))"
    using rec by (simp add: less_diff_conv)
  show ?thesis using res last def walk by blast
qed

lemma sort_notes_mset: "mset (sort_notes ns) = mset ns"
  by (simp add: sort_notes_def)

lemma sort_notes_length: "length (sort_notes ns) = length ns"
  by (simp add: sort_notes_def)

lemma dp_engine_result:
  fixes midi mf sp
  assumes ne: "extract_notes midi \<noteq> []"
  defines "ns \<equiv> sort_notes (extract_notes midi)"
  defines "s \<equiv> dp_fill ns mf sp"
  shows "\<exists>fha. final_hand_assignments s (length ns) = Inr fha
     \<and> fha (length ns - 1) = Some (final_hand_of s (length ns))
     \<and> (\<forall>i<length ns. fha i \<noteq> None)
     \<and> (\<forall>i. Suc i < length ns \<longrightarrow> fha i = map_of (hand_assignment s) (Suc i, the (fha (Suc i))))
     \<and> dynamic_programming_assign_hands midi mf sp =
         Inr (map ((!) ns) (filter (\<lambda>i. fha i = Some Left) [0..<length ns]),
              map ((!) ns) (filter (\<lambda>i. fha i = Some Right) [0..<length ns]))"
proof -
  have len: "0 < length ns"
    using ne by (simp add: ns_def sort_notes_length)
  have inv: "dp_inv ns mf sp (length ns) s"
    by (simp add: s_def dp_inv_fill)
  from final_hand_assignments_ok [OF inv len] obtain fha where
    f: "final_hand_assignments s (length ns) = Inr fha"
    "fha (length ns - 1) = Some (final_hand_of s (length ns))"
    "\<forall>i<length ns. fha i \<noteq> None"
    "\<forall>i. Suc i < length ns \<longrightarrow> fha i = map_of (hand_assignment s) (Suc i, the (fha (Suc i)))"
    by blast
  have tab: "dp_tables midi mf sp = Some s"
    using len by (simp add: dp_tables_def Let_def ns_def [symmetric] s_def)
  have sp: "split_hands fha ns [0..<length ns] ([], []) =
     Inr (map ((!) ns) (filter (\<lambda>i. fha i = Some Left) [0..<length ns]),
          map ((!) ns) (filter (\<lambda>i. fha i = Some Right) [0..<length ns]))"
    using split_hands_eq [of "[0..<length ns]" fha ns "[]" "[]"] f(3) by simp
  have "dynamic_programming_assign_hands midi mf sp =
         Inr (map ((!) ns) (filter (\<lambda>i. fha i = Some Left) [0..<length ns]),
              map ((!) ns) (filter (\<lambda>i. fha i = Some Right) [0..<length ns]))"
    by (simp add: dynamic_programming_assign_hands_def Let_def ns_def [symmetric] tab f(1) sp)
  then show ?thesis using f by blast
qed

lemma dp_engine_empty:
  assumes "extract_notes midi = []"
  shows "dp_tables midi mf sp = None" "dynamic_programming_assign_hands midi mf sp = Inr ([], [])"
  using assms
  by (simp_all add: dynamic_programming_assign_hands_def dp_tables_def sort_notes_def Let_def)

lemma dp_engine_partition:
  "\<exists>l r. dynamic_programming_assign_hands midi mf sp = Inr (l, r)
       \<and> mset l + mset r = mset (extract_notes midi)"
proof (cases "extract_notes midi = []")
  case True
  then show ?thesis by (simp add: dp_engine_empty)
next
  case False
  let ?ns = "sort_notes (extract_notes midi)"
  from dp_engine_result [OF False, of mf sp] obtain fha where
    d: "\<forall>i<length ?ns. fha i \<noteq> None"
    and r: "dynamic_programming_assign_hands midi mf sp =
         Inr (map ((!) ?ns) (filter (\<lambda>i. fha i = Some Left) [0..<length ?ns]),
              map ((!) ?ns) (filter (\<lambda>i. fha i = Some Right) [0..<length ?ns]))"
    by blast
  show ?thesis
    using r mset_split_labels [OF d] by (simp add: sort_notes_mset)
qed

lemma greedy_engine_partition:
  "mset (fst (assign_notes_to_hands midi mf sp)) + mset (snd (assign_notes_to_hands midi mf sp))
   = mset (extract_notes midi)"
proof -
  let ?ns = "sort_notes (extract_notes midi)"
  obtain ls rs where "left_hand (greedy_run mf sp ?ns greedy_init) = left_hand greedy_init @ ls"
    "right_hand (greedy_run mf sp ?ns greedy_init) = right_hand greedy_init @ rs"
    "mset ls + mset rs = mset ?ns"
    using greedy_run_extends [of mf sp ?ns greedy_init] by blast
  then show ?thesis
    by (simp add: assign_notes_to_hands_def Let_def greedy_init_def sort_notes_mset)
qed

subsection \<open>C4: both engines partition the input\<close>

text \<open>
  Claim C4. For every input, each engine returns a pair of lists (the DP engine never raises)
  whose lengths add up to the number of input notes and which, taken together as multisets
  of whole notes (pitch, onset, offset and velocity), are exactly the input: every note
  occurrence is in exactly one of the two streams, and no note is changed.
\<close>

theorem partition_completeness:
  "(\<exists>l r. assign_notes_to_hands midi mf sp = (l, r)
        \<and> length l + length r = length (extract_notes midi)
        \<and> mset l + mset r = mset (extract_notes midi))
   \<and> (\<exists>l r. dynamic_programming_assign_hands midi mf sp = Inr (l, r)
        \<and> length l + length r = length (extract_notes midi)
        \<and> mset l + mset r = mset (extract_notes midi))"
proof -
  have len: "length l + length r = length ns" if "mset l + mset r = mset ns"
    for l r ns :: "Note list"
    using that by (metis size_mset size_union)
  obtain gl gr where g: "assign_notes_to_hands midi mf sp = (gl, gr)"
    by (cases "assign_notes_to_hands midi mf sp")
  have gm: "mset gl + mset gr = mset (extract_notes midi)"
    using greedy_engine_partition [of midi mf sp] by (simp add: g)
  obtain dl dr where d: "dynamic_programming_assign_hands midi mf sp = Inr (dl, dr)"
    "mset dl + mset dr = mset (extract_notes midi)"
    using dp_engine_partition [of midi mf sp] by blast
  show ?thesis
    using g gm d len [OF gm] len [OF d(2)] by simp
qed

subsection \<open>C9: the empty input\<close>

text \<open>
  Claim C9. When the instruments hold no note at all, both engines return two empty
  streams, the DP engine without an error, and the DP engine creates no tables.
\<close>

theorem empty_input:
  assumes "extract_notes midi = []"
  shows "assign_notes_to_hands midi mf sp = ([], [])
       \<and> dynamic_programming_assign_hands midi mf sp = Inr ([], [])
       \<and> dp_tables midi mf sp = None"
  using assms dp_engine_empty [OF assms, of mf sp]
  by (simp add: assign_notes_to_hands_def sort_notes_def greedy_run_def greedy_init_def Let_def)

theorem empty_input_witness:
  "extract_notes [[], []] = []
   \<and> assign_notes_to_hands [[], []] 5 8 = ([], [])
   \<and> dynamic_programming_assign_hands [[], []] 5 8 = Inr ([], [])
   \<and> dp_tables [[], []] 5 8 = None"
proof -
  have e: "extract_notes [[], []] = []" by (simp add: extract_notes_def)
  show ?thesis using e empty_input [OF e, of 5 8] by simp
qed

subsection \<open>C8: malformed notes are not rejected\<close>




subsection \<open>The two-note example: values the engines compute\<close>

lemma sort_ex_pair: "sort_notes (extract_notes ex_pair) = [mk_note 64 0 10 100, mk_note 40 1 10 100]"
  by (simp add: ex_pair_def extract_notes_def sort_notes_def less_eq_prod_def)

lemma greedy_first_pair:
  "greedy_step 5 8 (mk_note 64 0 10 100) greedy_init
   = \<lparr> left_hand = [], right_hand = [mk_note 64 0 10 100],
       active_notes = (\<lambda>h. [])(Right := [mk_note 64 0 10 100]) \<rparr>"
  by (simp add: greedy_step_def greedy_costs_def greedy_states_def
        greedy_init_def prune_def make_state_def greedy_cost_def register_cost_def Let_def
        append_left_def append_right_def fun_eq_iff)

lemma greedy_costs_second_pair:
  "greedy_costs 5 8 (mk_note 40 1 10 100) (greedy_step 5 8 (mk_note 64 0 10 100) greedy_init) Left = 1 / 5"
  "greedy_costs 5 8 (mk_note 40 1 10 100) (greedy_step 5 8 (mk_note 64 0 10 100) greedy_init) Right = 257"
  by (simp_all add: greedy_first_pair greedy_costs_def greedy_states_def prune_def make_state_def
        greedy_cost_def register_cost_def Let_def)








subsection \<open>The cost computed in each iteration of the DP engine\<close>

lemma dp_inv_keys: "dp_inv ns mf sp k s \<Longrightarrow> map fst (hand_assignment s) = hand_keys k"
  by (simp add: dp_inv_def)

lemma dp_entry:
  assumes "dp_inv ns mf sp k s" "j < k"
  shows "\<exists>a b. dp s (int j - 1) Left = Fin a \<and> dp s (int j - 1) Right = Fin b
          \<and> dp s (int j) h = Fin (min a b + dp_cost ns mf sp j h)
          \<and> map_of (hand_assignment s) (j, h) = Some (if b < a then Right else Left)"
  using assms unfolding dp_inv_def by blast

lemma dp_prev_finite:
  assumes inv: "dp_inv ns mf sp k s"
  shows "\<exists>a b. dp s (int k - 1) Left = Fin a \<and> dp s (int k - 1) Right = Fin b"
proof (cases k)
  case 0
  then show ?thesis using inv by (simp add: dp_inv_def)
next
  case (Suc j)
  then have jk: "j < k" by simp
  from dp_entry [OF inv jk, of Left] dp_entry [OF inv jk, of Right] show ?thesis
    using Suc by auto
qed

lemma dp_hand_left_keys:
  assumes inv: "dp_inv ns mf sp k s"
  shows "map fst (hand_assignment (dp_hand ns mf sp k Left s)) = hand_keys k @ [(k, Left)]"
proof -
  have keys: "map fst (hand_assignment s) = hand_keys k"
    using inv by (rule dp_inv_keys)
  have fresh: "(k, Left) \<notin> set (map fst (hand_assignment s))"
    by (simp add: keys set_hand_keys)
  have step: "map fst (hand_assignment (dp_relax k Left c p t))
      = (if ecost_less (ecost_add (dp t (int k - 1) p) c) (dp t (int k) Left)
         then map fst (AList.update (k, Left) p (hand_assignment t))
         else map fst (hand_assignment t))" for c p t
    by (simp add: dp_relax_def Let_def)
  have one: "map fst (hand_assignment t) = hand_keys k @ [(k, Left)]
      \<Longrightarrow> map fst (hand_assignment (dp_relax k Left c p t)) = hand_keys k @ [(k, Left)]" for c p t
    by (simp add: step update_keys)
  obtain a where a: "dp s (int k - 1) Left = Fin a"
    using dp_prev_finite [OF inv] by blast
  have inf: "dp s (int k) Left = Infty"
    using inv by (simp add: dp_inv_def)
  have first: "map fst (hand_assignment (dp_relax k Left c Left s)) = hand_keys k @ [(k, Left)]" for c
    using a inf fresh by (simp add: step update_keys keys)
  show ?thesis
    by (simp add: dp_hand_def Let_def one first)
qed

lemma cost_to_assign_hand_eq:
  assumes "i < length ns"
  shows "cost_to_assign_hand ns mf sp i h = dp_cost ns mf sp i h"
proof -
  have inv: "dp_inv ns mf sp i (dp_upto ns mf sp i)"
    using assms by (simp add: dp_inv_upto)
  show ?thesis
  proof (cases h)
    case Left
    have "active_notes_pitch Left (note_start (ns ! i)) (take i ns)
            (hand_assignment (dp_upto ns mf sp i)) = all_active ns i"
      using anp_all_active [of "hand_assignment (dp_upto ns mf sp i)" i "[]" i ns Left]
        dp_inv_keys [OF inv] assms by simp
    then show ?thesis
      by (simp add: Left cost_to_assign_hand_def calculate_cost_spec dp_cost_def)
  next
    case Right
    have "active_notes_pitch Right (note_start (ns ! i)) (take i ns)
            (hand_assignment (dp_hand ns mf sp i Left (dp_upto ns mf sp i))) = all_active ns i"
      using anp_all_active [of "hand_assignment (dp_hand ns mf sp i Left (dp_upto ns mf sp i))"
          i "[(i, Left)]" i ns Right]
        dp_hand_left_keys [OF inv] assms by simp
    then show ?thesis
      by (simp add: Right cost_to_assign_hand_def calculate_cost_spec dp_cost_def)
  qed
qed

subsection \<open>C10, C5 and C6: the table, the recurrence and the reported minimum\<close>

text \<open>
  Claim C10. For a non-empty input, after the outer loop has processed the indices below
  \<open>k\<close> the table \<^verbatim>\<open>hand_assignment\<close> has an entry for \<open>(i, Left)\<close> and for
  \<open>(i, Right)\<close>, for every \<open>i < k\<close> (and the final table is the one after all indices).
  Hence when the cost of note \<open>k\<close> is computed, for the left hand and then for the right
  hand, with the table as it is at that moment, the active pitches that
  \<^verbatim>\<open>calculate_cost\<close> collects are in both cases the pitches of all earlier notes whose
  offset is strictly greater than the onset of note \<open>k\<close>: every such note counts for both
  hands at once. As soon as there is an earlier note, the history read by the cost function
  lists it under both hands, so it is not a division of the earlier notes between the hands.
\<close>

theorem dp_history_counts_for_both_hands:
  fixes midi mf sp
  defines "ns \<equiv> sort_notes (extract_notes midi)"
  assumes ne: "extract_notes midi \<noteq> []"
  shows "(\<forall>k \<le> length ns. \<forall>i < k. \<forall>h.
            map_of (hand_assignment (dp_upto ns mf sp k)) (i, h) \<noteq> None)
       \<and> dp_fill ns mf sp = dp_upto ns mf sp (length ns)
       \<and> (\<forall>k < length ns.
            active_notes_pitch Left (note_start (ns ! k)) (take k ns)
              (hand_assignment (dp_upto ns mf sp k))
            = map note_pitch (filter (\<lambda>m. note_end m > note_start (ns ! k)) (take k ns))
          \<and> active_notes_pitch Right (note_start (ns ! k)) (take k ns)
              (hand_assignment (dp_hand ns mf sp k Left (dp_upto ns mf sp k)))
            = map note_pitch (filter (\<lambda>m. note_end m > note_start (ns ! k)) (take k ns)))"
proof -
  have keys: "map_of (hand_assignment (dp_upto ns mf sp k)) (i, h) \<noteq> None"
    if "k \<le> length ns" "i < k" for k i h
    using dp_keys_defined [OF dp_inv_upto [OF that(1)] that(2)] .
  have act: "active_notes_pitch Left (note_start (ns ! k)) (take k ns)
              (hand_assignment (dp_upto ns mf sp k))
            = map note_pitch (filter (\<lambda>m. note_end m > note_start (ns ! k)) (take k ns))
          \<and> active_notes_pitch Right (note_start (ns ! k)) (take k ns)
              (hand_assignment (dp_hand ns mf sp k Left (dp_upto ns mf sp k)))
            = map note_pitch (filter (\<lambda>m. note_end m > note_start (ns ! k)) (take k ns))"
    if k: "k < length ns" for k
  proof -
    have inv: "dp_inv ns mf sp k (dp_upto ns mf sp k)"
      using k by (simp add: dp_inv_upto)
    have l: "active_notes_pitch Left (note_start (ns ! k)) (take k ns)
            (hand_assignment (dp_upto ns mf sp k)) = all_active ns k"
      using anp_all_active [of "hand_assignment (dp_upto ns mf sp k)" k "[]" k ns Left]
        dp_inv_keys [OF inv] k by simp
    have r: "active_notes_pitch Right (note_start (ns ! k)) (take k ns)
            (hand_assignment (dp_hand ns mf sp k Left (dp_upto ns mf sp k))) = all_active ns k"
      using anp_all_active [of "hand_assignment (dp_hand ns mf sp k Left (dp_upto ns mf sp k))"
          k "[(k, Left)]" k ns Right]
        dp_hand_left_keys [OF inv] k by simp
    show ?thesis using l r by (simp add: all_active_def)
  qed
  show ?thesis
    using keys act dp_fill_upto [of ns mf sp] by blast
qed

text \<open>
  Claim C5. For a non-empty input of \<open>n\<close> notes: the base row (index -1) holds cost 0 for
  both hands, initially and in the final table; for every index \<open>i\<close> and hand \<open>h\<close> the
  stored predecessor \<open>p\<close> satisfies \<open>dp[i][h] = dp[i-1][p] + cost\<close> and
  \<open>dp[i-1][p] + cost \<le> dp[i-1][q] + cost\<close> for every \<open>q\<close>, where \<open>cost\<close> is the one value
  of \<^verbatim>\<open>cost_to_assign_hand\<close> computed for \<open>(i, h)\<close>, the same for both predecessors; the
  final hand is Left exactly when \<open>dp[n-1][Left] \<le> dp[n-1][Right]\<close> and Right otherwise;
  and the backtracking succeeds, labels note \<open>n-1\<close> with the final hand and every earlier
  note \<open>i\<close> with the predecessor stored for \<open>(i+1, label of i+1)\<close>, the output streams
  being the notes labelled Left and the notes labelled Right, in order.
\<close>

theorem dp_recurrence_and_backtrack:
  fixes midi mf sp
  defines "ns \<equiv> sort_notes (extract_notes midi)"
  defines "s \<equiv> dp_fill ns mf sp"
  assumes ne: "extract_notes midi \<noteq> []"
  shows "dp dp_init (- 1) Left = Fin 0 \<and> dp dp_init (- 1) Right = Fin 0
       \<and> dp s (- 1) Left = Fin 0 \<and> dp s (- 1) Right = Fin 0
       \<and> (\<forall>i < length ns. \<forall>h. \<exists>p.
            map_of (hand_assignment s) (i, h) = Some p
            \<and> dp s (int i) h = ecost_add (dp s (int i - 1) p) (cost_to_assign_hand ns mf sp i h)
            \<and> (\<forall>q. ecost_le (ecost_add (dp s (int i - 1) p) (cost_to_assign_hand ns mf sp i h))
                             (ecost_add (dp s (int i - 1) q) (cost_to_assign_hand ns mf sp i h))))
       \<and> (final_hand_of s (length ns) = Left
            \<longleftrightarrow> ecost_le (dp s (int (length ns) - 1) Left) (dp s (int (length ns) - 1) Right))
       \<and> (final_hand_of s (length ns) = Right
            \<longleftrightarrow> \<not> ecost_le (dp s (int (length ns) - 1) Left) (dp s (int (length ns) - 1) Right))
       \<and> (\<exists>fha. final_hand_assignments s (length ns) = Inr fha
            \<and> fha (length ns - 1) = Some (final_hand_of s (length ns))
            \<and> (\<forall>i. Suc i < length ns \<longrightarrow>
                  fha i = map_of (hand_assignment s) (Suc i, the (fha (Suc i))))
            \<and> dynamic_programming_assign_hands midi mf sp =
                Inr (map ((!) ns) (filter (\<lambda>i. fha i = Some Left) [0..<length ns]),
                     map ((!) ns) (filter (\<lambda>i. fha i = Some Right) [0..<length ns])))"
proof -
  have inv: "dp_inv ns mf sp (length ns) s"
    by (simp add: s_def dp_inv_fill)
  have base0: "dp dp_init (- 1) Left = Fin 0 \<and> dp dp_init (- 1) Right = Fin 0"
    by (simp add: dp_init_def)
  have base: "dp s (- 1) Left = Fin 0 \<and> dp s (- 1) Right = Fin 0"
    using inv by (simp add: dp_inv_def)
  have rec: "\<exists>p. map_of (hand_assignment s) (i, h) = Some p
            \<and> dp s (int i) h = ecost_add (dp s (int i - 1) p) (cost_to_assign_hand ns mf sp i h)
            \<and> (\<forall>q. ecost_le (ecost_add (dp s (int i - 1) p) (cost_to_assign_hand ns mf sp i h))
                             (ecost_add (dp s (int i - 1) q) (cost_to_assign_hand ns mf sp i h)))"
    if i: "i < length ns" for i h
  proof -
    let ?c = "cost_to_assign_hand ns mf sp i h"
    have c: "?c = dp_cost ns mf sp i h"
      using i by (rule cost_to_assign_hand_eq)
    from dp_entry [OF inv i, of h] obtain a b where
      e: "dp s (int i - 1) Left = Fin a" "dp s (int i - 1) Right = Fin b"
         "dp s (int i) h = Fin (min a b + dp_cost ns mf sp i h)"
         "map_of (hand_assignment s) (i, h) = Some (if b < a then Right else Left)"
      by blast
    let ?p = "if b < a then Right else Left"
    have val: "dp s (int i) h = ecost_add (dp s (int i - 1) ?p) ?c"
      using e by (simp add: c min_def)
    have best: "ecost_le (ecost_add (dp s (int i - 1) ?p) ?c) (ecost_add (dp s (int i - 1) q) ?c)" for q
      using e by (cases q) (simp_all add: c)
    show ?thesis
      using e(4) val best by blast
  qed
  have fin: "final_hand_of s (length ns) = Left
            \<longleftrightarrow> ecost_le (dp s (int (length ns) - 1) Left) (dp s (int (length ns) - 1) Right)"
    "final_hand_of s (length ns) = Right
            \<longleftrightarrow> \<not> ecost_le (dp s (int (length ns) - 1) Left) (dp s (int (length ns) - 1) Right)"
    by (simp_all add: final_hand_of_def)
  from dp_engine_result [OF ne, of mf sp] obtain fha where
    f: "final_hand_assignments s (length ns) = Inr fha"
    "fha (length ns - 1) = Some (final_hand_of s (length ns))"
    "\<forall>i. Suc i < length ns \<longrightarrow> fha i = map_of (hand_assignment s) (Suc i, the (fha (Suc i)))"
    "dynamic_programming_assign_hands midi mf sp =
         Inr (map ((!) ns) (filter (\<lambda>i. fha i = Some Left) [0..<length ns]),
              map ((!) ns) (filter (\<lambda>i. fha i = Some Right) [0..<length ns]))"
    unfolding ns_def [symmetric] s_def [symmetric] by blast
  have bt: "\<exists>fha. final_hand_assignments s (length ns) = Inr fha
            \<and> fha (length ns - 1) = Some (final_hand_of s (length ns))
            \<and> (\<forall>i. Suc i < length ns \<longrightarrow>
                  fha i = map_of (hand_assignment s) (Suc i, the (fha (Suc i))))
            \<and> dynamic_programming_assign_hands midi mf sp =
                Inr (map ((!) ns) (filter (\<lambda>i. fha i = Some Left) [0..<length ns]),
                     map ((!) ns) (filter (\<lambda>i. fha i = Some Right) [0..<length ns]))"
    using f by blast
  show ?thesis
    using base0 base rec fin bt by blast
qed






subsection \<open>Concrete runs: witnesses and the claims that fail\<close>


lemma ex_pair_nonempty: "extract_notes ex_pair \<noteq> []"
  by (simp add: ex_pair_def extract_notes_def)

theorem dp_history_counts_for_both_hands_witness:
  "extract_notes ex_pair \<noteq> []
   \<and> (1::nat) < length (sort_notes (extract_notes ex_pair))
   \<and> map_of (hand_assignment (dp_upto (sort_notes (extract_notes ex_pair)) 5 8 1)) (0, Left) \<noteq> None
   \<and> map_of (hand_assignment (dp_upto (sort_notes (extract_notes ex_pair)) 5 8 1)) (0, Right) \<noteq> None
   \<and> active_notes_pitch Left 1 [mk_note 64 0 10 100]
        (hand_assignment (dp_upto [mk_note 64 0 10 100, mk_note 40 1 10 100] 5 8 1)) = [64]
   \<and> active_notes_pitch Right 1 [mk_note 64 0 10 100]
        (hand_assignment (dp_hand [mk_note 64 0 10 100, mk_note 40 1 10 100] 5 8 1 Left
           (dp_upto [mk_note 64 0 10 100, mk_note 40 1 10 100] 5 8 1))) = [64]"
proof -
  have len: "(1::nat) < length (sort_notes (extract_notes ex_pair))"
    by (simp add: sort_ex_pair)
  have le: "(1::nat) \<le> length (sort_notes (extract_notes ex_pair))"
    by (simp add: sort_ex_pair)
  note t = dp_history_counts_for_both_hands [OF ex_pair_nonempty, of 5 8]
  from t le have k: "map_of (hand_assignment (dp_upto (sort_notes (extract_notes ex_pair)) 5 8 1)) (0, h) \<noteq> None" for h
    by (metis zero_less_one)
  from t len have a: "active_notes_pitch Left (note_start (sort_notes (extract_notes ex_pair) ! 1))
              (take 1 (sort_notes (extract_notes ex_pair)))
              (hand_assignment (dp_upto (sort_notes (extract_notes ex_pair)) 5 8 1))
            = map note_pitch (filter (\<lambda>m. note_end m > note_start (sort_notes (extract_notes ex_pair) ! 1))
                 (take 1 (sort_notes (extract_notes ex_pair))))
          \<and> active_notes_pitch Right (note_start (sort_notes (extract_notes ex_pair) ! 1))
              (take 1 (sort_notes (extract_notes ex_pair)))
              (hand_assignment (dp_hand (sort_notes (extract_notes ex_pair)) 5 8 1 Left
                 (dp_upto (sort_notes (extract_notes ex_pair)) 5 8 1)))
            = map note_pitch (filter (\<lambda>m. note_end m > note_start (sort_notes (extract_notes ex_pair) ! 1))
                 (take 1 (sort_notes (extract_notes ex_pair))))"
    by blast
  show ?thesis
    using ex_pair_nonempty len k a by (simp add: sort_ex_pair)
qed


theorem dp_recurrence_and_backtrack_witness:
  "extract_notes ex_pair \<noteq> []
   \<and> (1::nat) < length (sort_notes (extract_notes ex_pair))
   \<and> Suc 0 < length (sort_notes (extract_notes ex_pair))
   \<and> dp (dp_fill (sort_notes (extract_notes ex_pair)) 5 8) (- 1) Left = Fin 0
   \<and> (\<exists>p. map_of (hand_assignment (dp_fill (sort_notes (extract_notes ex_pair)) 5 8)) (1, Left) = Some p
        \<and> dp (dp_fill (sort_notes (extract_notes ex_pair)) 5 8) (int 1) Left
            = ecost_add (dp (dp_fill (sort_notes (extract_notes ex_pair)) 5 8) (int 1 - 1) p)
                (cost_to_assign_hand (sort_notes (extract_notes ex_pair)) 5 8 1 Left))
   \<and> (\<exists>fha. final_hand_assignments (dp_fill (sort_notes (extract_notes ex_pair)) 5 8)
               (length (sort_notes (extract_notes ex_pair))) = Inr fha
        \<and> fha 0 = map_of (hand_assignment (dp_fill (sort_notes (extract_notes ex_pair)) 5 8))
                     (Suc 0, the (fha (Suc 0))))"
proof -
  have len: "(1::nat) < length (sort_notes (extract_notes ex_pair))"
    "Suc 0 < length (sort_notes (extract_notes ex_pair))"
    by (simp_all add: sort_ex_pair)
  note t = dp_recurrence_and_backtrack [OF ex_pair_nonempty, of 5 8]
  from t have b: "dp (dp_fill (sort_notes (extract_notes ex_pair)) 5 8) (- 1) Left = Fin 0"
    by blast
  from t len(1) have r: "\<exists>p. map_of (hand_assignment (dp_fill (sort_notes (extract_notes ex_pair)) 5 8)) (1, Left) = Some p
        \<and> dp (dp_fill (sort_notes (extract_notes ex_pair)) 5 8) (int 1) Left
            = ecost_add (dp (dp_fill (sort_notes (extract_notes ex_pair)) 5 8) (int 1 - 1) p)
                (cost_to_assign_hand (sort_notes (extract_notes ex_pair)) 5 8 1 Left)"
    by blast
  from t len(2) have f: "\<exists>fha. final_hand_assignments (dp_fill (sort_notes (extract_notes ex_pair)) 5 8)
               (length (sort_notes (extract_notes ex_pair))) = Inr fha
        \<and> fha 0 = map_of (hand_assignment (dp_fill (sort_notes (extract_notes ex_pair)) 5 8))
                     (Suc 0, the (fha (Suc 0)))"
    by blast
  show ?thesis
    using ex_pair_nonempty len b r f by blast
qed


text \<open>
  Claim C2 fails in the greedy engine. After E4 has gone to the right hand, the note E2
  arrives while the left hand has no active note and the right hand has one. The formula
  of the claim gives the left hand cost 0 (no span, no finger, no register, no density
  term). The greedy engine computes 0.2: its density term counts the active notes of the
  right hand, because \<^verbatim>\<open>current_pitches\<close> still holds the right hand's pitches.
\<close>

theorem greedy_left_cost_uses_right_density:
  "fst (greedy_states (mk_note 40 1 10 100) (greedy_step 5 8 (mk_note 64 0 10 100) greedy_init)) Left = []
   \<and> fst (greedy_states (mk_note 40 1 10 100) (greedy_step 5 8 (mk_note 64 0 10 100) greedy_init)) Right
       = [mk_note 64 0 10 100]
   \<and> greedy_costs 5 8 (mk_note 40 1 10 100) (greedy_step 5 8 (mk_note 64 0 10 100) greedy_init) Left = 1 / 5
   \<and> spec_cost 5 8 40 Left [] = 0"
proof -
  have a: "fst (greedy_states (mk_note 40 1 10 100) (greedy_step 5 8 (mk_note 64 0 10 100) greedy_init)) Left = []"
    "fst (greedy_states (mk_note 40 1 10 100) (greedy_step 5 8 (mk_note 64 0 10 100) greedy_init)) Right
       = [mk_note 64 0 10 100]"
    by (simp_all add: greedy_first_pair greedy_states_def prune_def Let_def)
  have b: "spec_cost 5 8 40 Left [] = 0"
    by (simp add: spec_cost_def)
  show ?thesis
    by (intro conjI a greedy_costs_second_pair(1) b)
qed

lemma sort_ex_quiet: "sort_notes (extract_notes ex_quiet) = [mk_note 64 1 3 1, mk_note 66 2 4 1]"
  by (simp add: ex_quiet_def extract_notes_def sort_notes_def less_eq_prod_def)

lemma greedy_first_quiet:
  "greedy_step 5 8 (mk_note 64 1 3 1) greedy_init
   = \<lparr> left_hand = [], right_hand = [mk_note 64 1 3 1],
       active_notes = (\<lambda>h. [])(Right := [mk_note 64 1 3 1]) \<rparr>"
  by (simp add: greedy_step_def greedy_costs_def greedy_states_def
        greedy_init_def prune_def make_state_def greedy_cost_def register_cost_def Let_def
        append_left_def append_right_def fun_eq_iff)

lemma dp_quiet:
  "dynamic_programming_assign_hands ex_quiet 5 8 = Inr ([], [mk_note 64 1 3 1, mk_note 66 2 4 1])"
  by (simp add: dynamic_programming_assign_hands_def dp_tables_def sort_ex_quiet
       dp_fill_def dp_note_def dp_hand_def dp_relax_def dp_init_def calculate_cost_def make_state_def
       register_cost_def final_hand_assignments_def final_hand_of_def Let_def)

lemma dp_quiet_left_active:
  "active_notes_pitch Left 2 [mk_note 64 1 3 1]
     (hand_assignment (dp_upto [mk_note 64 1 3 1, mk_note 66 2 4 1] 5 8 1)) = [64]"
  by (simp add: dp_upto_def dp_note_def dp_hand_def dp_relax_def dp_init_def calculate_cost_def
      make_state_def register_cost_def Let_def)

text \<open>
  Claim C1 fails in both engines. Greedy engine: E4 (seconds 1 to 3, velocity 1) is
  assigned to the right hand; when F#4 starts at second 2, E4 is still sounding, so the
  active set of the claim is E4, but the engine's pruned list for the right hand is empty,
  since it keeps a note when its velocity, not its offset, exceeds the onset. DP engine:
  on the same input both notes end in the right hand and none in the left, yet the cost of
  the second note for the left hand is computed with E4 active in the left hand.
\<close>

theorem greedy_active_set_tests_velocity:
  "right_hand (greedy_step 5 8 (mk_note 64 1 3 1) greedy_init) = [mk_note 64 1 3 1]
   \<and> spec_active_set (right_hand (greedy_step 5 8 (mk_note 64 1 3 1) greedy_init))
        (note_start (mk_note 66 2 4 1)) = [mk_note 64 1 3 1]
   \<and> fst (greedy_states (mk_note 66 2 4 1) (greedy_step 5 8 (mk_note 64 1 3 1) greedy_init)) Right = []
   \<and> dynamic_programming_assign_hands ex_quiet 5 8 = Inr ([], [mk_note 64 1 3 1, mk_note 66 2 4 1])
   \<and> active_notes_pitch Left 2 [mk_note 64 1 3 1]
        (hand_assignment (dp_upto [mk_note 64 1 3 1, mk_note 66 2 4 1] 5 8 1)) = [64]"
proof -
  have a: "right_hand (greedy_step 5 8 (mk_note 64 1 3 1) greedy_init) = [mk_note 64 1 3 1]"
    by (simp add: greedy_first_quiet)
  have b: "spec_active_set (right_hand (greedy_step 5 8 (mk_note 64 1 3 1) greedy_init))
        (note_start (mk_note 66 2 4 1)) = [mk_note 64 1 3 1]"
    by (simp add: greedy_first_quiet spec_active_set_def)
  have c: "fst (greedy_states (mk_note 66 2 4 1) (greedy_step 5 8 (mk_note 64 1 3 1) greedy_init)) Right = []"
    by (simp add: greedy_first_quiet greedy_states_def prune_def Let_def)
  show ?thesis
    by (intro conjI a b c dp_quiet dp_quiet_left_active)
qed

lemma greedy_right_cost_spec:
  "greedy_costs mf sp n s Right
   = spec_cost mf sp (note_pitch n) Right (map note_pitch (fst (greedy_states n s) Right))"
proof -
  let ?cp = "map note_pitch (prune (note_start n) (active_notes s Right))"
  show ?thesis
  proof (cases "?cp = []")
    case True
    then show ?thesis
      by (simp add: greedy_costs_def greedy_states_def greedy_cost_def spec_cost_def Let_def
          make_state_def register_cost_def)
  next
    case False
    then have "Max (insert (note_pitch n) (set ?cp)) = max (note_pitch n) (Max (set ?cp))"
      "Min (insert (note_pitch n) (set ?cp)) = min (note_pitch n) (Min (set ?cp))"
      by (simp_all del: set_map)
    then show ?thesis
      using False
      by (simp add: greedy_costs_def greedy_states_def greedy_cost_def spec_cost_def Let_def
          make_state_def register_cost_def max.commute min.commute del: set_map)
  qed
qed

end
